theory Spec2Isabelle
  imports Main "HOL-Library.Word" "HOL-Library.Product_Lexorder"
begin

section \<open>Errors\<close>

text \<open>
  The two exception classes the program can raise: \<open>ValueError\<close> (raised by the length
  check of \<open>hex_le_to_int64\<close> and by \<open>bytes.fromhex\<close>) and \<open>OverflowError\<close> (raised by
  \<open>timedelta\<close> and by \<open>datetime + timedelta\<close>).
\<close>

datatype error = ValueError | OverflowError

section \<open>The little-endian hex decoder\<close>

subsection \<open>\<open>bytes.fromhex\<close>\<close>

text \<open>
  \<open>bytes.fromhex\<close> is CPython's \<open>_PyBytes_FromHex\<close>. It walks the string from the left;
  at the start of each byte it skips a run of ASCII whitespace (\<open>Py_ISSPACE\<close>), then reads
  two characters through the table \<open>_PyLong_DigitValue\<close> and rejects the string when
  either value is 16 or more (the end of the string in the place of the second digit is
  rejected the same way). A string with a character of code 128 or above is rejected
  before the walk starts; the table gives such a character the value 37, so the walk
  rejects it as well. A Python string is a \<open>string\<close> here: its characters are the
  codes 0 to 255, and \<open>length\<close> counts characters as \<open>len\<close> does.
\<close>

definition Py_ISSPACE :: "char \<Rightarrow> bool" where
  "Py_ISSPACE c = (let n = (of_char c :: nat) in (9 \<le> n \<and> n \<le> 13) \<or> n = 32)"

definition PyLong_DigitValue :: "char \<Rightarrow> nat" where
  "PyLong_DigitValue c =
     (let n = (of_char c :: nat) in
      if 48 \<le> n \<and> n \<le> 57 then n - 48
      else if 97 \<le> n \<and> n \<le> 122 then n - 87
      else if 65 \<le> n \<and> n \<le> 90 then n - 55
      else 37)"

fun bytes_fromhex :: "string \<Rightarrow> error + 8 word list" where
  "bytes_fromhex [] = Inr []"
| "bytes_fromhex (c # cs) =
     (if Py_ISSPACE c then bytes_fromhex cs
      else let top = PyLong_DigitValue c in
        if top \<ge> 16 then Inl ValueError
        else (case cs of
                [] \<Rightarrow> Inl ValueError
              | d # ds \<Rightarrow>
                  let bot = PyLong_DigitValue d in
                  if bot \<ge> 16 then Inl ValueError
                  else (case bytes_fromhex ds of
                          Inl e \<Rightarrow> Inl e
                        | Inr bs \<Rightarrow> Inr (word_of_nat (top * 16 + bot) # bs))))"

subsection \<open>\<open>int.from_bytes\<close>\<close>

text \<open>
  \<open>int.from_bytes(b, byteorder='little', signed=True)\<close>: the first byte is the least
  significant one; the value is negative when the top bit of the last byte is set, and
  then it is the unsigned value minus \<open>2 ^ (8 * len b)\<close>. The empty byte string gives 0.
\<close>

fun unsigned_le :: "8 word list \<Rightarrow> int" where
  "unsigned_le [] = 0"
| "unsigned_le (b # bs) = uint b + 256 * unsigned_le bs"

definition int_from_bytes :: "8 word list \<Rightarrow> int" where
  "int_from_bytes bs =
     (if bs \<noteq> [] \<and> uint (last bs) \<ge> 128
      then unsigned_le bs - 2 ^ (8 * length bs)
      else unsigned_le bs)"

subsection \<open>\<open>hex_le_to_int64\<close>\<close>

definition hex_le_to_int64 :: "string \<Rightarrow> error + int" where
  "hex_le_to_int64 hex_str =
     (if length hex_str \<noteq> 16 then Inl ValueError
      else (case bytes_fromhex hex_str of
              Inl e \<Rightarrow> Inl e
            | Inr byte_data \<Rightarrow> Inr (int_from_bytes byte_data)))"

section \<open>The epoch-offset converter\<close>

subsection \<open>Calendar helpers of the \<open>datetime\<close> module\<close>

text \<open>
  \<open>postgres_timestamptz_to_datetime\<close> is three calls into Python's \<open>datetime\<close> module:
  the constructor \<open>datetime(2000, 1, 1, tzinfo=timezone.utc)\<close>, the constructor
  \<open>timedelta(microseconds=int64_value)\<close> and \<open>datetime.__add__\<close>. They are embedded here
  as the module's Python implementation writes them, helper by helper, restricted to
  integer arguments (Python's \<open>//\<close> and \<open>%\<close> round down, as \<open>div\<close> and \<open>mod\<close> on \<open>int\<close> do;
  \<open>x >> 5\<close> is \<open>x div 32\<close>). The \<open>assert\<close> statements of \<open>_ord2ymd\<close> are left out.
\<close>

definition MINYEAR :: int where "MINYEAR = 1"
definition MAXYEAR :: int where "MAXYEAR = 9999"
definition MAXORDINAL :: int where "MAXORDINAL = 3652059"

definition DAYS_IN_MONTH :: "int list" where
  "DAYS_IN_MONTH = [-1, 31, 28, 31, 30, 31, 30, 31, 31, 30, 31, 30, 31]"

definition DAYS_BEFORE_MONTH :: "int list" where
  "DAYS_BEFORE_MONTH = [-1, 0, 31, 59, 90, 120, 151, 181, 212, 243, 273, 304, 334]"

definition is_leap :: "int \<Rightarrow> bool" where
  "is_leap y = (y mod 4 = 0 \<and> (y mod 100 \<noteq> 0 \<or> y mod 400 = 0))"

definition days_before_year :: "int \<Rightarrow> int" where
  "days_before_year yr = (let y = yr - 1 in y * 365 + y div 4 - y div 100 + y div 400)"

definition days_in_month :: "int \<Rightarrow> int \<Rightarrow> int" where
  "days_in_month y m = (if m = 2 \<and> is_leap y then 29 else DAYS_IN_MONTH ! nat m)"

definition days_before_month :: "int \<Rightarrow> int \<Rightarrow> int" where
  "days_before_month y m = DAYS_BEFORE_MONTH ! nat m + (if m > 2 \<and> is_leap y then 1 else 0)"

definition ymd2ord :: "int \<Rightarrow> int \<Rightarrow> int \<Rightarrow> int" where
  "ymd2ord y m d = days_before_year y + days_before_month y m + d"

definition DI400Y :: int where "DI400Y = days_before_year 401"
definition DI100Y :: int where "DI100Y = days_before_year 101"
definition DI4Y :: int where "DI4Y = days_before_year 5"

definition ord2ymd :: "int \<Rightarrow> int \<times> int \<times> int" where
  "ord2ymd n0 =
     (let n = n0 - 1;
          n400 = n div DI400Y; n = n mod DI400Y;
          yr = n400 * 400 + 1;
          n100 = n div DI100Y; n = n mod DI100Y;
          n4 = n div DI4Y; n = n mod DI4Y;
          n1 = n div 365; n = n mod 365;
          yr = yr + n100 * 100 + n4 * 4 + n1
      in if n1 = 4 \<or> n100 = 4 then (yr - 1, 12, 31)
         else
           let leapyear = (n1 = 3 \<and> (n4 \<noteq> 24 \<or> n100 = 3));
               mon = (n + 50) div 32;
               preceding = DAYS_BEFORE_MONTH ! nat mon + (if mon > 2 \<and> leapyear then 1 else 0)
           in if preceding > n
              then (let mon' = mon - 1;
                        preceding' = preceding
                          - (DAYS_IN_MONTH ! nat mon' + (if mon' = 2 \<and> leapyear then 1 else 0))
                    in (yr, mon', n - preceding' + 1))
              else (yr, mon, n - preceding + 1))"

subsection \<open>\<open>timedelta\<close>\<close>

record timedelta =
  days :: int
  seconds :: int
  microseconds :: int

text \<open>
  \<open>timedelta.__new__\<close> on integer arguments (\<open>weeks\<close> and \<open>milliseconds\<close> are 0 in every
  call the program makes): the arguments are folded into days, seconds and microseconds,
  normalised with \<open>divmod\<close>, and more than 999999999 days either way is an
  \<open>OverflowError\<close>.
\<close>

definition timedelta_new :: "int \<Rightarrow> int \<Rightarrow> int \<Rightarrow> int \<Rightarrow> int \<Rightarrow> error + timedelta" where
  "timedelta_new days0 seconds0 microseconds0 minutes0 hours0 =
     (let seconds1 = seconds0 + minutes0 * 60 + hours0 * 3600;
          d = days0 + seconds1 div (24 * 3600);
          s = seconds1 mod (24 * 3600);
          seconds2 = microseconds0 div 1000000;
          microseconds1 = microseconds0 mod 1000000;
          d = d + seconds2 div (24 * 3600);
          s = s + seconds2 mod (24 * 3600);
          s = s + microseconds1 div 1000000;
          us = microseconds1 mod 1000000;
          d = d + s div (24 * 3600);
          s = s mod (24 * 3600)
      in if \<bar>d\<bar> > 999999999 then Inl OverflowError
         else Inr \<lparr>days = d, seconds = s, microseconds = us\<rparr>)"

definition timedelta_add :: "timedelta \<Rightarrow> timedelta \<Rightarrow> error + timedelta" where
  "timedelta_add a b =
     timedelta_new (days a + days b) (seconds a + seconds b)
       (microseconds a + microseconds b) 0 0"

subsection \<open>\<open>datetime\<close>\<close>

datatype timezone = utc

record datetime =
  year :: int
  month :: int
  day :: int
  hour :: int
  minute :: int
  second :: int
  microsecond :: int
  tzinfo :: "timezone option"

text \<open>The constructor checks every field and raises \<open>ValueError\<close> on one out of range.\<close>

definition datetime_new ::
  "int \<Rightarrow> int \<Rightarrow> int \<Rightarrow> int \<Rightarrow> int \<Rightarrow> int \<Rightarrow> int \<Rightarrow> timezone option \<Rightarrow> error + datetime" where
  "datetime_new y m d hh mm ss us tz =
     (if \<not> (MINYEAR \<le> y \<and> y \<le> MAXYEAR) then Inl ValueError
      else if \<not> (1 \<le> m \<and> m \<le> 12) then Inl ValueError
      else if \<not> (1 \<le> d \<and> d \<le> days_in_month y m) then Inl ValueError
      else if \<not> (0 \<le> hh \<and> hh \<le> 23) then Inl ValueError
      else if \<not> (0 \<le> mm \<and> mm \<le> 59) then Inl ValueError
      else if \<not> (0 \<le> ss \<and> ss \<le> 59) then Inl ValueError
      else if \<not> (0 \<le> us \<and> us \<le> 999999) then Inl ValueError
      else Inr \<lparr>year = y, month = m, day = d, hour = hh, minute = mm, second = ss,
                microsecond = us, tzinfo = tz\<rparr>)"

definition toordinal :: "datetime \<Rightarrow> int" where
  "toordinal dt = ymd2ord (year dt) (month dt) (day dt)"

text \<open>
  \<open>datetime.__add__\<close>: the date and time of \<open>self\<close> become a \<open>timedelta\<close> counted from
  ordinal 0, the other \<open>timedelta\<close> is added, and the sum is turned back into a date
  (\<open>date.fromordinal\<close>, that is \<open>_ord2ymd\<close>) and a time of day, with the zone of \<open>self\<close>.
  A day count outside \<open>1 .. _MAXORDINAL\<close> is an \<open>OverflowError\<close>.
\<close>

definition datetime_add :: "datetime \<Rightarrow> timedelta \<Rightarrow> error + datetime" where
  "datetime_add self other =
     (case timedelta_new (toordinal self) (second self) (microsecond self)
             (minute self) (hour self) of
        Inl e \<Rightarrow> Inl e
      | Inr delta0 \<Rightarrow>
          (case timedelta_add delta0 other of
             Inl e \<Rightarrow> Inl e
           | Inr delta \<Rightarrow>
               let hh = seconds delta div 3600; rem = seconds delta mod 3600;
                   mm = rem div 60; ss = rem mod 60
               in if 0 < days delta \<and> days delta \<le> MAXORDINAL
                  then (case ord2ymd (days delta) of
                          (y, m, d) \<Rightarrow>
                            datetime_new y m d hh mm ss (microseconds delta) (tzinfo self))
                  else Inl OverflowError))"

subsection \<open>\<open>postgres_timestamptz_to_datetime\<close>\<close>

definition postgres_timestamptz_to_datetime :: "int \<Rightarrow> error + datetime" where
  "postgres_timestamptz_to_datetime int64_value =
     (case datetime_new 2000 1 1 0 0 0 0 (Some utc) of
        Inl e \<Rightarrow> Inl e
      | Inr postgres_epoch \<Rightarrow>
          (case timedelta_new 0 0 int64_value 0 0 of
             Inl e \<Rightarrow> Inl e
           | Inr delta \<Rightarrow> datetime_add postgres_epoch delta))"

text \<open>
  \<open>datetime.__lt__\<close> on two values carrying the same zone compares the tuples of their
  fields, first field first.
\<close>

definition datetime_tuple :: "datetime \<Rightarrow> int \<times> int \<times> int \<times> int \<times> int \<times> int \<times> int" where
  "datetime_tuple dt =
     (year dt, month dt, day dt, hour dt, minute dt, second dt, microsecond dt)"

definition datetime_lt :: "datetime \<Rightarrow> datetime \<Rightarrow> bool" where
  "datetime_lt a b = (datetime_tuple a < datetime_tuple b)"

section \<open>What the specification speaks of\<close>

subsection \<open>Tokens and their re-encoding\<close>

text \<open>A valid token: exactly 16 characters, each a hexadecimal digit of either case.\<close>

definition hexdigit_char :: "char \<Rightarrow> bool" where
  "hexdigit_char c = (c \<in> set ''0123456789abcdefABCDEF'')"

definition valid_token :: "string \<Rightarrow> bool" where
  "valid_token t = (length t = 16 \<and> list_all hexdigit_char t)"

text \<open>
  Modelled from the spec: the program has no encoder; the round-trip law speaks of
  re-encoding the decoded integer "as little-endian hex of the resulting signed 64-bit
  integer". \<open>int64_to_hex_le\<close> is that encoder: the eight bytes of the two's-complement
  form, least significant first, two lower-case hex digits a byte (what Python's
  \<open>v.to_bytes(8, 'little', signed=True).hex()\<close> gives), and an \<open>OverflowError\<close> for an
  integer outside the signed 64-bit range.
\<close>

fun to_bytes_le :: "nat \<Rightarrow> int \<Rightarrow> 8 word list" where
  "to_bytes_le 0 v = []"
| "to_bytes_le (Suc n) v = word_of_int v # to_bytes_le n (v div 256)"

definition hex_digit_of :: "nat \<Rightarrow> char" where
  "hex_digit_of d = ''0123456789abcdef'' ! d"

definition byte_hex :: "8 word \<Rightarrow> string" where
  "byte_hex b = [hex_digit_of (unat b div 16), hex_digit_of (unat b mod 16)]"

definition int64_to_hex_le :: "int \<Rightarrow> error + string" where
  "int64_to_hex_le v =
     (if - (2 ^ 63) \<le> v \<and> v < 2 ^ 63
      then Inr (concat (map byte_hex (to_bytes_le 8 v)))
      else Inl OverflowError)"

text \<open>The lower-case form of a character: the letters \<open>A\<close> to \<open>Z\<close> move, nothing else does.\<close>

definition ascii_lower :: "char \<Rightarrow> char" where
  "ascii_lower c =
     (let n = (of_char c :: nat) in if 65 \<le> n \<and> n \<le> 90 then char_of (n + 32) else c)"

subsection \<open>Calendar time\<close>

text \<open>
  The proleptic Gregorian calendar, said directly: a year is a leap year when 4 divides
  it, except the centuries that 400 does not divide; the day number of a date counts
  the days of all the years before its year, of all the months before its month, and
  its day of the month, so that 0001-01-01 is day 1.
\<close>

definition leap_year :: "int \<Rightarrow> bool" where
  "leap_year y = (4 dvd y \<and> (\<not> 100 dvd y \<or> 400 dvd y))"

definition year_length :: "int \<Rightarrow> int" where
  "year_length y = (if leap_year y then 366 else 365)"

definition month_length :: "int \<Rightarrow> int \<Rightarrow> int" where
  "month_length y m =
     (if m = 2 then (if leap_year y then 29 else 28)
      else if m = 4 \<or> m = 6 \<or> m = 9 \<or> m = 11 then 30
      else 31)"

definition day_number :: "int \<Rightarrow> int \<Rightarrow> int \<Rightarrow> int" where
  "day_number y m d =
     sum_list (map year_length [1..y - 1]) + sum_list (map (month_length y) [1..m - 1]) + d"

text \<open>
  A well-formed timestamp, and the instant it denotes: the microseconds from
  0001-01-01T00:00:00 to it.
\<close>

definition valid_datetime :: "datetime \<Rightarrow> bool" where
  "valid_datetime dt =
     (1 \<le> year dt \<and> year dt \<le> 9999 \<and> 1 \<le> month dt \<and> month dt \<le> 12 \<and>
      1 \<le> day dt \<and> day dt \<le> month_length (year dt) (month dt) \<and>
      0 \<le> hour dt \<and> hour dt \<le> 23 \<and> 0 \<le> minute dt \<and> minute dt \<le> 59 \<and>
      0 \<le> second dt \<and> second dt \<le> 59 \<and> 0 \<le> microsecond dt \<and> microsecond dt \<le> 999999)"

definition micros_of :: "datetime \<Rightarrow> int" where
  "micros_of dt =
     ((((day_number (year dt) (month dt) (day dt) - 1) * 24 + hour dt) * 60 + minute dt) * 60
        + second dt) * 1000000 + microsecond dt"

definition epoch_2000 :: datetime where
  "epoch_2000 = \<lparr>year = 2000, month = 1, day = 1, hour = 0, minute = 0, second = 0,
                  microsecond = 0, tzinfo = Some utc\<rparr>"

text \<open>The least and the greatest timestamp of the type (\<open>datetime.min\<close>, \<open>datetime.max\<close>).\<close>

definition datetime_min :: datetime where
  "datetime_min = \<lparr>year = 1, month = 1, day = 1, hour = 0, minute = 0, second = 0,
                    microsecond = 0, tzinfo = Some utc\<rparr>"

definition datetime_max :: datetime where
  "datetime_max = \<lparr>year = 9999, month = 12, day = 31, hour = 23, minute = 59, second = 59,
                    microsecond = 999999, tzinfo = Some utc\<rparr>"

text \<open>
  An offset is representable when the instant \<open>off\<close> microseconds after
  2000-01-01T00:00:00 lies between those two.
\<close>

definition representable :: "int \<Rightarrow> bool" where
  "representable off =
     (micros_of datetime_min \<le> micros_of epoch_2000 + off \<and>
      micros_of epoch_2000 + off \<le> micros_of datetime_max)"

definition int64 :: "int \<Rightarrow> bool" where
  "int64 v = (- (2 ^ 63) \<le> v \<and> v < 2 ^ 63)"

section \<open>Evaluating the two functions\<close>

lemmas hex_eval = hex_le_to_int64_def Py_ISSPACE_def PyLong_DigitValue_def int_from_bytes_def

lemmas datetime_eval =
  postgres_timestamptz_to_datetime_def datetime_new_def timedelta_new_def timedelta_add_def
  datetime_add_def toordinal_def ymd2ord_def days_before_year_def days_before_month_def
  days_in_month_def is_leap_def ord2ymd_def DI400Y_def DI100Y_def DI4Y_def
  DAYS_IN_MONTH_def DAYS_BEFORE_MONTH_def MINYEAR_def MAXYEAR_def MAXORDINAL_def Let_def

lemma to_bytes_le_8:
  "to_bytes_le 8 v =
     [word_of_int v, word_of_int (v div 256), word_of_int (v div 256 div 256),
      word_of_int (v div 256 div 256 div 256),
      word_of_int (v div 256 div 256 div 256 div 256),
      word_of_int (v div 256 div 256 div 256 div 256 div 256),
      word_of_int (v div 256 div 256 div 256 div 256 div 256 div 256),
      word_of_int (v div 256 div 256 div 256 div 256 div 256 div 256 div 256)]"
proof -
  have "(8::nat) = Suc (Suc (Suc (Suc (Suc (Suc (Suc (Suc 0)))))))" by simp
  then show ?thesis by (simp only: to_bytes_le.simps)
qed

section \<open>The decoder\<close>

subsection \<open>Bytes to integer\<close>

lemma unsigned_le_bounds: "0 \<le> unsigned_le bs \<and> unsigned_le bs < 256 ^ length bs"
proof (induction bs)
  case Nil
  show ?case by simp
next
  case (Cons b bs)
  have b: "0 \<le> uint b" "uint b < 256"
    using uint_bounded [of b] by simp_all
  from Cons b show ?case by simp
qed

lemma unsigned_le_append:
  "unsigned_le (xs @ ys) = unsigned_le xs + 256 ^ length xs * unsigned_le ys"
  by (induction xs) (simp_all add: algebra_simps)

lemma int_from_bytes_snoc_bounds:
  "- (128 * 256 ^ length xs) \<le> int_from_bytes (xs @ [l]) \<and>
   int_from_bytes (xs @ [l]) < 128 * 256 ^ length xs"
proof -
  define k :: int where "k = 256 ^ length xs"
  define p where "p = k * uint l"
  define u where "u = unsigned_le xs"
  have app: "unsigned_le (xs @ [l]) = u + p"
    by (simp add: unsigned_le_append k_def p_def u_def)
  have x: "0 \<le> u" "u < k"
    using unsigned_le_bounds [of xs] by (simp_all add: k_def u_def)
  have l: "0 \<le> uint l" "uint l < 256"
    using uint_bounded [of l] by simp_all
  have k: "0 < k" by (simp add: k_def)
  have e: "(2::int) ^ (8 * length (xs @ [l])) = 256 * k"
    by (simp add: power_mult power_add k_def)
  show ?thesis
  proof (cases "uint l \<ge> 128")
    case True
    have "k * 128 \<le> p" "p \<le> k * 255"
      unfolding p_def using True l k by (simp_all add: mult_left_mono)
    moreover have "int_from_bytes (xs @ [l]) = u + p - 256 * k"
      using True unfolding int_from_bytes_def e app by simp
    ultimately show ?thesis
      using x k unfolding k_def [symmetric] by linarith
  next
    case False
    have "p \<le> k * 127" "0 \<le> p"
      unfolding p_def using False l k by (simp_all add: mult_left_mono)
    moreover have "int_from_bytes (xs @ [l]) = u + p"
      using False unfolding int_from_bytes_def app by simp
    ultimately show ?thesis
      using x k unfolding k_def [symmetric] by linarith
  qed
qed

lemma int_from_bytes_int64:
  assumes "length bs \<le> 8"
  shows "int64 (int_from_bytes bs)"
proof (cases bs rule: rev_cases)
  case Nil
  then show ?thesis by (simp add: int_from_bytes_def int64_def)
next
  case (snoc xs l)
  with assms have "length xs \<le> 7" by simp
  then have "(256::int) ^ length xs \<le> 256 ^ 7"
    by (intro power_increasing) simp_all
  then have "128 * (256::int) ^ length xs \<le> 2 ^ 63" by simp
  with int_from_bytes_snoc_bounds [of xs l] snoc show ?thesis
    by (simp add: int64_def)
qed

lemma bytes_fromhex_length:
  "bytes_fromhex s = Inr bs \<Longrightarrow> 2 * length bs \<le> length s"
proof (induction s arbitrary: bs rule: bytes_fromhex.induct)
  case 1
  then show ?case by simp
next
  case (2 c cs)
  show ?case
  proof (cases "Py_ISSPACE c")
    case True
    with 2 show ?thesis by fastforce
  next
    case False
    with "2.prems" obtain d ds bs' where
      cs: "cs = d # ds" and top: "\<not> 16 \<le> PyLong_DigitValue c"
      and bot: "\<not> 16 \<le> PyLong_DigitValue d"
      and r: "bytes_fromhex ds = Inr bs'" and bs: "bs = word_of_nat (PyLong_DigitValue c * 16 + PyLong_DigitValue d) # bs'"
      by (auto simp: Let_def split: if_splits list.splits sum.splits)
    from "2.IH"(2) [OF False refl top cs refl bot r] have "2 * length bs' \<le> length ds" .
    with cs bs show ?thesis by simp
  qed
qed

subsection \<open>Characters\<close>

lemma hexdigit_char_facts:
  assumes "hexdigit_char c"
  shows "PyLong_DigitValue c < 16" and "\<not> Py_ISSPACE c"
    and "hex_digit_of (PyLong_DigitValue c) = ascii_lower c"
  using assms
  by (auto simp: hexdigit_char_def PyLong_DigitValue_def Py_ISSPACE_def hex_digit_of_def
      ascii_lower_def char_of_def bit_iff_odd)

lemma char_of_digit: "48 \<le> n \<and> n \<le> 57 \<Longrightarrow> hexdigit_char (char_of (n::nat))"
proof -
  assume "48 \<le> n \<and> n \<le> 57"
  then have "n = 48 \<or> n = 49 \<or> n = 50 \<or> n = 51 \<or> n = 52 \<or> n = 53 \<or> n = 54 \<or> n = 55 \<or>
    n = 56 \<or> n = 57"
    by arith
  then show ?thesis
    by (elim disjE) (simp_all add: hexdigit_char_def char_of_def bit_iff_odd)
qed

lemma char_of_lower_af: "97 \<le> n \<and> n \<le> 102 \<Longrightarrow> hexdigit_char (char_of (n::nat))"
proof -
  assume "97 \<le> n \<and> n \<le> 102"
  then have "n = 97 \<or> n = 98 \<or> n = 99 \<or> n = 100 \<or> n = 101 \<or> n = 102"
    by arith
  then show ?thesis
    by (elim disjE) (simp_all add: hexdigit_char_def char_of_def bit_iff_odd)
qed

lemma char_of_upper_af: "65 \<le> n \<and> n \<le> 70 \<Longrightarrow> hexdigit_char (char_of (n::nat))"
proof -
  assume "65 \<le> n \<and> n \<le> 70"
  then have "n = 65 \<or> n = 66 \<or> n = 67 \<or> n = 68 \<or> n = 69 \<or> n = 70"
    by arith
  then show ?thesis
    by (elim disjE) (simp_all add: hexdigit_char_def char_of_def bit_iff_odd)
qed

lemma digit_value_hexdigit:
  assumes "PyLong_DigitValue c < 16"
  shows "hexdigit_char c"
proof -
  define n where "n = (of_char c :: nat)"
  have c: "c = char_of n" by (simp add: n_def)
  from assms have "(48 \<le> n \<and> n \<le> 57) \<or> (97 \<le> n \<and> n \<le> 102) \<or> (65 \<le> n \<and> n \<le> 70)"
    by (auto simp: PyLong_DigitValue_def n_def [symmetric] Let_def split: if_splits)
  then show ?thesis
    unfolding c using char_of_digit char_of_lower_af char_of_upper_af by blast
qed

lemma bad_char_rejected:
  "\<exists>c \<in> set s. \<not> hexdigit_char c \<and> \<not> Py_ISSPACE c \<Longrightarrow> bytes_fromhex s = Inl ValueError"
proof (induction s rule: bytes_fromhex.induct)
  case 1
  then show ?case by simp
next
  case (2 c cs)
  show ?case
  proof (cases "Py_ISSPACE c")
    case True
    with 2 show ?thesis by auto
  next
    case sp: False
    show ?thesis
    proof (cases "16 \<le> PyLong_DigitValue c")
      case True
      with sp show ?thesis by simp
    next
      case top: False
      then have hc: "hexdigit_char c" by (simp add: digit_value_hexdigit)
      show ?thesis
      proof (cases cs)
        case Nil
        with sp top show ?thesis by simp
      next
        case (Cons d ds)
        show ?thesis
        proof (cases "16 \<le> PyLong_DigitValue d")
          case True
          with sp top Cons show ?thesis by simp
        next
          case bot: False
          then have hd: "hexdigit_char d" by (simp add: digit_value_hexdigit)
          from "2.prems" hc hd Cons have "\<exists>c \<in> set ds. \<not> hexdigit_char c \<and> \<not> Py_ISSPACE c"
            by auto
          from "2.IH"(2) [OF sp refl top Cons refl bot this]
          show ?thesis using sp top bot Cons by simp
        qed
      qed
    qed
  qed
qed

lemma word8_of_digits:
  assumes "a < 16" "b < 16"
  shows "unat (word_of_nat (a * 16 + b) :: 8 word) = a * 16 + b"
proof -
  from assms have "a * 16 + b < 256" by arith
  moreover have "unat (word_of_nat (a * 16 + b) :: 8 word) = (a * 16 + b) mod 2 ^ LENGTH(8)"
    by (rule unat_of_nat)
  ultimately show ?thesis by simp
qed

lemma byte_hex_of_digits:
  assumes "hexdigit_char c" "hexdigit_char d"
  shows "byte_hex (word_of_nat (PyLong_DigitValue c * 16 + PyLong_DigitValue d))
           = [ascii_lower c, ascii_lower d]"
proof -
  let ?a = "PyLong_DigitValue c" and ?b = "PyLong_DigitValue d"
  have a: "?a < 16" and b: "?b < 16"
    using assms by (simp_all add: hexdigit_char_facts)
  have "(?a * 16 + ?b) div 16 = ?a" "(?a * 16 + ?b) mod 16 = ?b"
    using a b by simp_all
  then show ?thesis
    unfolding byte_hex_def word8_of_digits [OF a b]
    using assms by (simp add: hexdigit_char_facts)
qed

lemma fromhex_hex_digits:
  "list_all hexdigit_char t \<Longrightarrow> even (length t) \<Longrightarrow>
     \<exists>bs. bytes_fromhex t = Inr bs \<and> 2 * length bs = length t \<and>
          concat (map byte_hex bs) = map ascii_lower t"
proof (induction t rule: bytes_fromhex.induct)
  case 1
  then show ?case by simp
next
  case (2 c cs)
  from "2.prems" have hc: "hexdigit_char c" by simp
  then have sp: "\<not> Py_ISSPACE c" and top: "\<not> 16 \<le> PyLong_DigitValue c"
    using hexdigit_char_facts [of c] by simp_all
  from "2.prems" obtain d ds where cs: "cs = d # ds"
    by (cases cs) auto
  with "2.prems" have hd: "hexdigit_char d" and rest: "list_all hexdigit_char ds" "even (length ds)"
    by simp_all
  from hd have bot: "\<not> 16 \<le> PyLong_DigitValue d"
    using hexdigit_char_facts [of d] by simp
  from "2.IH"(2) [OF sp refl top cs refl bot rest]
  obtain bs where bs: "bytes_fromhex ds = Inr bs" "2 * length bs = length ds"
    "concat (map byte_hex bs) = map ascii_lower ds"
    by blast
  show ?case
    using sp top bot cs bs byte_hex_of_digits [OF hc hd] by simp
qed


lemma word8_256: "(256 :: 8 word) = 0"
  by (simp add: word_eq_iff_unsigned [where ?'a = int])

lemma word8_of_int_shift: "(word_of_int (v + 256 * k) :: 8 word) = word_of_int v"
proof -
  have "(word_of_int (v + 256 * k) :: 8 word) = word_of_int v + word_of_int 256 * word_of_int k"
    by (simp only: word_of_int_hom_syms)
  also have "(word_of_int 256 :: 8 word) = 256" by simp
  finally show ?thesis by (simp only: word8_256 mult_zero_left add_0_right)
qed

lemma to_bytes_le_unsigned: "to_bytes_le (length bs) (unsigned_le bs) = bs"
proof (induction bs)
  case Nil
  show ?case by simp
next
  case (Cons b bs)
  have b: "0 \<le> uint b" "uint b < 256"
    using uint_bounded [of b] by simp_all
  then have "(uint b + 256 * unsigned_le bs) div 256 = unsigned_le bs"
    by simp
  moreover have "(word_of_int (uint b + 256 * unsigned_le bs) :: 8 word) = b"
    by (simp only: word8_of_int_shift word_of_int_uint)
  ultimately show ?case using Cons by simp
qed

lemma to_bytes_le_shift: "to_bytes_le n (v + k * 256 ^ n) = to_bytes_le n v"
proof (induction n arbitrary: v k)
  case 0
  show ?case by simp
next
  case (Suc n)
  have e: "v + k * 256 ^ Suc n = v + 256 * (k * 256 ^ n)" by simp
  have "(v + 256 * (k * 256 ^ n)) div 256 = v div 256 + k * 256 ^ n"
    by simp
  then show ?case
    unfolding e by (simp only: to_bytes_le.simps word8_of_int_shift Suc.IH)
qed

lemma to_bytes_le_signed:
  "to_bytes_le (length bs) (int_from_bytes bs) = bs"
proof -
  have "(2::int) ^ (8 * length bs) = 256 ^ length bs"
    by (simp add: power_mult)
  then have "int_from_bytes bs = unsigned_le bs \<or>
             int_from_bytes bs = unsigned_le bs + (- 1) * 256 ^ length bs"
    by (simp add: int_from_bytes_def)
  then show ?thesis
    using to_bytes_le_shift [of "length bs" "unsigned_le bs" "- 1"]
    by (auto simp only: to_bytes_le_unsigned)
qed

lemma hex_digit_of_simps:
  "hex_digit_of 0 = CHR ''0''" "hex_digit_of 10 = CHR ''a''"
  by (simp_all add: hex_digit_of_def)

subsection \<open>Claims about the decoder\<close>

text \<open>
  C10. Whatever string it is given, when \<open>hex_le_to_int64\<close> returns a value the value is
  a signed 64-bit one: between \<open>- 2 ^ 63\<close> and \<open>2 ^ 63 - 1\<close>. (Sixteen characters give
  at most eight bytes, whitespace or not.)
\<close>

theorem decoded_value_in_int64: "hex_le_to_int64 hex_str = Inr v \<Longrightarrow> - (2 ^ 63) \<le> v \<and> v < 2 ^ 63"
proof -
  assume a: "hex_le_to_int64 hex_str = Inr v"
  then obtain bs where len: "length hex_str = 16" and bs: "bytes_fromhex hex_str = Inr bs"
    and v: "v = int_from_bytes bs"
    by (auto simp: hex_le_to_int64_def split: if_splits sum.splits)
  from bytes_fromhex_length [OF bs] len have "length bs \<le> 8" by simp
  from int_from_bytes_int64 [OF this] v show ?thesis by (simp add: int64_def)
qed

theorem decoded_value_in_int64_witness:
  "hex_le_to_int64 ''ffffffffffffff7f'' = Inr (2 ^ 63 - 1) \<and>
   - (2 ^ 63) \<le> (2 ^ 63 - 1 :: int) \<and> (2 ^ 63 - 1 :: int) < 2 ^ 63"
  using decoded_value_in_int64 [of "''ffffffffffffff7f''" "2 ^ 63 - 1"]
  by (simp add: hex_eval)

text \<open>
  C3. The claim: a 16-character token with a character that is no hexadecimal digit is
  rejected, never read as zero or as a shorter value. The decoder does reject every
  token holding a character that is neither a hexadecimal digit nor ASCII whitespace
  (\<open>bad_char_rejected\<close> above), but \<open>bytes.fromhex\<close> skips whitespace between bytes:
  sixteen spaces decode to 0, and \<open>ff\<close> followed by fourteen spaces decodes, as the one
  byte \<open>ff\<close>, to \<open>-1\<close>.
\<close>

theorem whitespace_token_accepted:
  "length ''                '' = 16 \<and> \<not> hexdigit_char CHR '' '' \<and>
   hex_le_to_int64 ''                '' = Inr 0 \<and>
   length ''ff              '' = 16 \<and>
   hex_le_to_int64 ''ff              '' = Inr (- 1)"
  by (simp add: hex_eval hexdigit_char_def)

text \<open>
  C2, as the specification has it: for every valid token, of either case, re-encoding
  the decoded integer gives the token back character for character. The decoder reads
  \<open>A\<close> and \<open>a\<close> alike, so the tokens \<open>0A00000000000000\<close> and \<open>0a00000000000000\<close> both
  decode to 10, and the encoder, which sees only the integer, returns the second.
\<close>

theorem roundtrip_uppercase_counterexample:
  "valid_token ''0A00000000000000'' \<and>
   hex_le_to_int64 ''0A00000000000000'' = Inr 10 \<and>
   hex_le_to_int64 ''0a00000000000000'' = Inr 10 \<and>
   int64_to_hex_le 10 = Inr ''0a00000000000000'' \<and>
   ''0a00000000000000'' \<noteq> ''0A00000000000000''"
  by (simp add: valid_token_def hexdigit_char_def hex_eval int64_to_hex_le_def byte_hex_def
      to_bytes_le_8 hex_digit_of_simps)

text \<open>
  C2, amended: for every valid token the decoder returns an integer, and re-encoding
  that integer gives the token in lower case (the token itself when it has no
  upper-case digit).
\<close>

theorem roundtrip_up_to_case:
  assumes "valid_token t"
  shows "\<exists>v. hex_le_to_int64 t = Inr v \<and> int64_to_hex_le v = Inr (map ascii_lower t)"
proof -
  from assms have len: "length t = 16" and hex: "list_all hexdigit_char t"
    by (simp_all add: valid_token_def)
  from fromhex_hex_digits [OF hex] len obtain bs where
    bs: "bytes_fromhex t = Inr bs" and l: "2 * length bs = length t"
    and enc: "concat (map byte_hex bs) = map ascii_lower t"
    by auto
  from l len have l8: "length bs = 8" by simp
  then have "int64 (int_from_bytes bs)"
    by (simp add: int_from_bytes_int64)
  moreover have "to_bytes_le 8 (int_from_bytes bs) = bs"
    using to_bytes_le_signed [of bs] l8 by simp
  ultimately have "int64_to_hex_le (int_from_bytes bs) = Inr (map ascii_lower t)"
    using enc by (simp add: int64_to_hex_le_def int64_def)
  moreover have "hex_le_to_int64 t = Inr (int_from_bytes bs)"
    using len bs by (simp add: hex_le_to_int64_def)
  ultimately show ?thesis by blast
qed

theorem roundtrip_up_to_case_witness:
  "valid_token ''0A000000000000fF'' \<and>
   (\<exists>v. hex_le_to_int64 ''0A000000000000fF'' = Inr v \<and> int64_to_hex_le v = Inr ''0a000000000000ff'')"
proof -
  have v: "valid_token ''0A000000000000fF''"
    by (simp add: valid_token_def hexdigit_char_def)
  have "map ascii_lower ''0A000000000000fF'' = ''0a000000000000ff''"
    by (simp add: ascii_lower_def char_of_def bit_iff_odd)
  with roundtrip_up_to_case [OF v] v show ?thesis by simp
qed

section \<open>The calendar arithmetic of the converter\<close>

subsection \<open>\<open>_ord2ymd\<close> inverts \<open>_ymd2ord\<close>\<close>

lemma DI_values: "DI400Y = 146097" "DI100Y = 36524" "DI4Y = 1461"
  by (simp_all add: DI400Y_def DI100Y_def DI4Y_def days_before_year_def)

lemma div_mod_decomp:
  fixes k q r :: int
  assumes "0 \<le> r" "r < k"
  shows "(k * q + r) div k = q" and "(k * q + r) mod k = r"
  using assms by (simp_all add: div_pos_pos_trivial mod_pos_pos_trivial)

lemma days_before_year_decomp:
  assumes "0 \<le> b" "b \<le> 3" "0 \<le> c" "c \<le> 24" "0 \<le> e" "e \<le> 3"
  shows "days_before_year (400 * a + 100 * b + 4 * c + e + 1)
           = 146097 * a + 36524 * b + 1461 * c + 365 * e"
proof -
  define y where "y = 400 * a + 100 * b + 4 * c + e"
  have "y = 4 * (100 * a + 25 * b + c) + e" by (simp add: y_def)
  then have d4: "y div 4 = 100 * a + 25 * b + c"
    using assms div_mod_decomp(1) [of e 4] by simp
  have "y = 100 * (4 * a + b) + (4 * c + e)" by (simp add: y_def)
  moreover have "0 \<le> 4 * c + e" "4 * c + e < 100" using assms by simp_all
  ultimately have d100: "y div 100 = 4 * a + b"
    using div_mod_decomp(1) [of "4 * c + e" 100] by simp
  have "y = 400 * a + (100 * b + 4 * c + e)" by (simp add: y_def)
  moreover have "0 \<le> 100 * b + 4 * c + e" "100 * b + 4 * c + e < 400" using assms by simp_all
  ultimately have d400: "y div 400 = a"
    using div_mod_decomp(1) [of "100 * b + 4 * c + e" 400] by simp
  have "days_before_year (y + 1) = y * 365 + y div 4 - y div 100 + y div 400"
    by (simp add: days_before_year_def)
  also have "\<dots> = 146097 * a + 36524 * b + 1461 * c + 365 * e"
    unfolding d4 d100 d400 by (simp add: y_def)
  finally show ?thesis by (simp add: y_def)
qed

lemma mod_eqI:
  fixes k q r y :: int
  shows "y = k * q + r \<Longrightarrow> 0 \<le> r \<Longrightarrow> r < k \<Longrightarrow> y mod k = r"
  by (simp add: div_mod_decomp)

lemma div_eqI:
  fixes k q r y :: int
  shows "y = k * q + r \<Longrightarrow> 0 \<le> r \<Longrightarrow> r < k \<Longrightarrow> y div k = q"
  by (simp add: div_mod_decomp)

lemma is_leap_decomp:
  assumes "0 \<le> b" "b \<le> 3" "0 \<le> c" "c \<le> 24" "0 \<le> e" "e \<le> 3"
  shows "is_leap (400 * a + 100 * b + 4 * c + e + 1) = (e = 3 \<and> (c \<noteq> 24 \<or> b = 3))"
proof -
  define y where "y = 400 * a + 100 * b + 4 * c + e + 1"
  have m4: "y mod 4 = 0 \<longleftrightarrow> e = 3"
  proof (cases "e = 3")
    case True
    have "y mod 4 = 0"
      by (rule mod_eqI [where q = "100 * a + 25 * b + c + 1"]) (simp_all add: y_def True)
    then show ?thesis using True by simp
  next
    case False
    have "y mod 4 = e + 1"
      by (rule mod_eqI [where q = "100 * a + 25 * b + c"]) (use assms False in \<open>simp_all add: y_def\<close>)
    then show ?thesis using False assms by simp
  qed
  have m100: "y mod 100 = 0 \<longleftrightarrow> c = 24 \<and> e = 3"
  proof (cases "c = 24 \<and> e = 3")
    case True
    have "y mod 100 = 0"
      by (rule mod_eqI [where q = "4 * a + b + 1"]) (simp_all add: y_def True)
    then show ?thesis using True by simp
  next
    case False
    have "y mod 100 = 4 * c + e + 1"
      by (rule mod_eqI [where q = "4 * a + b"]) (use assms False in \<open>auto simp: y_def\<close>)
    then show ?thesis using False assms by simp
  qed
  have m400: "y mod 400 = 0 \<longleftrightarrow> b = 3 \<and> c = 24 \<and> e = 3"
  proof (cases "b = 3 \<and> c = 24 \<and> e = 3")
    case True
    have "y mod 400 = 0"
      by (rule mod_eqI [where q = "a + 1"]) (simp_all add: y_def True)
    then show ?thesis using True by simp
  next
    case False
    have "y mod 400 = 100 * b + 4 * c + e + 1"
      by (rule mod_eqI [where q = a]) (use assms False in \<open>auto simp: y_def\<close>)
    then show ?thesis using False assms by simp
  qed
  show ?thesis
    unfolding y_def [symmetric] is_leap_def m4 m100 m400 by blast
qed

lemma month_part:
  fixes r :: int and L :: bool
  assumes r: "0 \<le> r" "r < 365"
  defines "mon \<equiv> (r + 50) div 32"
  defines "preceding \<equiv> DAYS_BEFORE_MONTH ! nat mon + (if mon > 2 \<and> L then 1 else 0)"
  defines "res \<equiv>
    (if preceding > r
     then (mon - 1, r - (preceding - (DAYS_IN_MONTH ! nat (mon - 1)
                           + (if mon - 1 = 2 \<and> L then 1 else 0))) + 1)
     else (mon, r - preceding + 1))"
  shows "1 \<le> fst res \<and> fst res \<le> 12 \<and> 1 \<le> snd res \<and>
         snd res \<le> (if fst res = 2 \<and> L then 29 else DAYS_IN_MONTH ! nat (fst res)) \<and>
         DAYS_BEFORE_MONTH ! nat (fst res) + (if fst res > 2 \<and> L then 1 else 0) + snd res = r + 1"
proof -
  define t where "t = (r + 50) mod 32"
  have t: "0 \<le> t" "t < 32" by (simp_all add: t_def)
  have eq: "r = 32 * mon + t - 50"
    unfolding mon_def t_def using mult_div_mod_eq [of 32 "r + 50"] by linarith
  from r t eq have "1 \<le> mon" "mon \<le> 12" by linarith+
  then have "mon = 1 \<or> mon = 2 \<or> mon = 3 \<or> mon = 4 \<or> mon = 5 \<or> mon = 6 \<or>
    mon = 7 \<or> mon = 8 \<or> mon = 9 \<or> mon = 10 \<or> mon = 11 \<or> mon = 12"
    by arith
  then consider "mon = 1" | "mon = 2" | "mon = 3" | "mon = 4" | "mon = 5" | "mon = 6"
    | "mon = 7" | "mon = 8" | "mon = 9" | "mon = 10" | "mon = 11" | "mon = 12"
    by blast
  then show ?thesis
  proof cases
    case 1
    with r t eq show ?thesis
      by (simp add: res_def preceding_def DAYS_IN_MONTH_def DAYS_BEFORE_MONTH_def)
  next
    case 2
    with r t eq show ?thesis
      by (simp add: res_def preceding_def DAYS_IN_MONTH_def DAYS_BEFORE_MONTH_def)
  next
    case 3
    with r t eq show ?thesis
      by (simp add: res_def preceding_def DAYS_IN_MONTH_def DAYS_BEFORE_MONTH_def)
  next
    case 4
    with r t eq show ?thesis
      by (simp add: res_def preceding_def DAYS_IN_MONTH_def DAYS_BEFORE_MONTH_def)
  next
    case 5
    with r t eq show ?thesis
      by (simp add: res_def preceding_def DAYS_IN_MONTH_def DAYS_BEFORE_MONTH_def)
  next
    case 6
    with r t eq show ?thesis
      by (simp add: res_def preceding_def DAYS_IN_MONTH_def DAYS_BEFORE_MONTH_def)
  next
    case 7
    with r t eq show ?thesis
      by (simp add: res_def preceding_def DAYS_IN_MONTH_def DAYS_BEFORE_MONTH_def)
  next
    case 8
    with r t eq show ?thesis
      by (simp add: res_def preceding_def DAYS_IN_MONTH_def DAYS_BEFORE_MONTH_def)
  next
    case 9
    with r t eq show ?thesis
      by (simp add: res_def preceding_def DAYS_IN_MONTH_def DAYS_BEFORE_MONTH_def)
  next
    case 10
    with r t eq show ?thesis
      by (simp add: res_def preceding_def DAYS_IN_MONTH_def DAYS_BEFORE_MONTH_def)
  next
    case 11
    with r t eq show ?thesis
      by (simp add: res_def preceding_def DAYS_IN_MONTH_def DAYS_BEFORE_MONTH_def)
  next
    case 12
    with r t eq show ?thesis
      by (simp add: res_def preceding_def DAYS_IN_MONTH_def DAYS_BEFORE_MONTH_def)
  qed
qed

lemma ord2ymd_correct:
  assumes n0: "1 \<le> n0" and res: "ord2ymd n0 = (y, m, d)"
  shows "1 \<le> y \<and> 1 \<le> m \<and> m \<le> 12 \<and> 1 \<le> d \<and> d \<le> days_in_month y m \<and> ymd2ord y m d = n0"
proof -
  define n where "n = n0 - 1"
  define a where "a = n div 146097"
  define r400 where "r400 = n mod 146097"
  define b where "b = r400 div 36524"
  define r100 where "r100 = r400 mod 36524"
  define c where "c = r100 div 1461"
  define r4 where "r4 = r100 mod 1461"
  define e where "e = r4 div 365"
  define r1 where "r1 = r4 mod 365"
  define L where "L = (e = 3 \<and> (c \<noteq> 24 \<or> b = 3))"
  define mon where "mon = (r1 + 50) div 32"
  define preceding where
    "preceding = DAYS_BEFORE_MONTH ! nat mon + (if mon > 2 \<and> L then 1 else 0)"
  define md where "md =
    (if preceding > r1
     then (mon - 1, r1 - (preceding - (DAYS_IN_MONTH ! nat (mon - 1)
                           + (if mon - 1 = 2 \<and> L then 1 else 0))) + 1)
     else (mon, r1 - preceding + 1))"
  define Y where "Y = 400 * a + 100 * b + 4 * c + e + 1"
  have n: "0 \<le> n" "n0 = n + 1" using n0 by (simp_all add: n_def)
  have a: "n = 146097 * a + r400" "0 \<le> r400" "r400 < 146097" "0 \<le> a"
    using n by (simp_all add: a_def r400_def pos_imp_zdiv_nonneg_iff)
  have b: "r400 = 36524 * b + r100" "0 \<le> r100" "r100 < 36524" "0 \<le> b"
    using a by (simp_all add: b_def r100_def pos_imp_zdiv_nonneg_iff)
  have c: "r100 = 1461 * c + r4" "0 \<le> r4" "r4 < 1461" "0 \<le> c"
    using b by (simp_all add: c_def r4_def pos_imp_zdiv_nonneg_iff)
  have e: "r4 = 365 * e + r1" "0 \<le> r1" "r1 < 365" "0 \<le> e"
    using c by (simp_all add: e_def r1_def pos_imp_zdiv_nonneg_iff)
  have b4: "b \<le> 4" using a b by linarith
  have c24: "c \<le> 24" using b c by linarith
  have e4: "e \<le> 4" using c e by linarith
  have Yeq: "a * 400 + 1 + b * 100 + c * 4 + e = Y" by (simp add: Y_def)
  have unf: "ord2ymd n0 = (if e = 4 \<or> b = 4 then (Y - 1, 12, 31) else (Y, fst md, snd md))"
    apply (simp only: ord2ymd_def Let_def DI_values)
    apply (simp only: n_def [symmetric] a_def [symmetric] r400_def [symmetric]
        b_def [symmetric] r100_def [symmetric] c_def [symmetric] r4_def [symmetric]
        e_def [symmetric] r1_def [symmetric] L_def [symmetric] mon_def [symmetric]
        preceding_def [symmetric] Yeq)
    apply (simp add: md_def)
    done
  show ?thesis
  proof (cases "b = 4")
    case True
    then have z: "r100 = 0" "c = 0" "r4 = 0" "e = 0" "r1 = 0"
      using a b c e by linarith+
    have y: "y = 400 * a + 100 * 3 + 4 * 24 + 3 + 1" "m = 12" "d = 31"
      using res unf True z by (simp_all add: Y_def)
    have "days_before_year y = 146097 * a + 36524 * 3 + 1461 * 24 + 365 * 3"
      unfolding y by (rule days_before_year_decomp) simp_all
    moreover have "is_leap y"
      unfolding y by (subst is_leap_decomp) simp_all
    moreover have "n0 = 146097 * a + 146097"
      using n a b z True by simp
    moreover have "1 \<le> y" using y a by simp
    ultimately show ?thesis
      using y(2,3)
      by (simp add: ymd2ord_def days_before_month_def days_in_month_def
          DAYS_IN_MONTH_def DAYS_BEFORE_MONTH_def)
  next
    case b3: False
    then have b3': "b \<le> 3" using b4 by simp
    show ?thesis
    proof (cases "e = 4")
      case True
      then have z: "r1 = 0" using c e by linarith
      have c23: "c \<le> 23" using b c e True by linarith
      have y: "y = 400 * a + 100 * b + 4 * c + 3 + 1" "m = 12" "d = 31"
        using res unf True by (simp_all add: Y_def)
      have "days_before_year y = 146097 * a + 36524 * b + 1461 * c + 365 * 3"
        unfolding y using b c b3' c23 by (intro days_before_year_decomp) simp_all
      moreover have "is_leap y"
        unfolding y using b c b3' c23 by (subst is_leap_decomp) simp_all
      moreover have "n0 = 146097 * a + 36524 * b + 1461 * c + 1461"
        using n a b c e z True by simp
      moreover have "1 \<le> y" using y a b c by simp
      ultimately show ?thesis
        using y(2,3)
        by (simp add: ymd2ord_def days_before_month_def days_in_month_def
            DAYS_IN_MONTH_def DAYS_BEFORE_MONTH_def)
    next
      case False
      then have e3: "e \<le> 3" using e4 by simp
      have y: "y = Y" "m = fst md" "d = snd md"
        using res unf False b3 by simp_all
      have dby: "days_before_year Y = 146097 * a + 36524 * b + 1461 * c + 365 * e"
        unfolding Y_def using b c e b3' c24 e3 by (intro days_before_year_decomp) simp_all
      have leap: "is_leap Y = L"
        unfolding Y_def L_def using b c e b3' c24 e3 by (intro is_leap_decomp) simp_all
      have n0': "n0 = 146097 * a + 36524 * b + 1461 * c + 365 * e + r1 + 1"
        using n a b c e by simp
      have mp: "1 \<le> fst md \<and> fst md \<le> 12 \<and> 1 \<le> snd md \<and>
         snd md \<le> (if fst md = 2 \<and> L then 29 else DAYS_IN_MONTH ! nat (fst md)) \<and>
         DAYS_BEFORE_MONTH ! nat (fst md) + (if fst md > 2 \<and> L then 1 else 0) + snd md = r1 + 1"
        unfolding md_def preceding_def mon_def using e(2,3) by (rule month_part)
      have "1 \<le> Y" using a b c e by (simp add: Y_def)
      with mp show ?thesis
        unfolding y ymd2ord_def days_before_month_def days_in_month_def leap dby n0'
        by simp
    qed
  qed
qed

subsection \<open>The day count of the calendar\<close>

lemma leap_year_is_leap: "leap_year y = is_leap y"
  by (simp add: leap_year_def is_leap_def dvd_eq_mod_eq_0)

lemma div_step:
  fixes k y :: int
  assumes k: "0 < k"
  shows "y div k = (y - 1) div k + (if y mod k = 0 then 1 else 0)"
proof -
  define q where "q = y div k"
  define r where "r = y mod k"
  have y: "y = k * q + r" and r: "0 \<le> r" "r < k"
    using k by (simp_all add: q_def r_def)
  show ?thesis
  proof (cases "r = 0")
    case True
    have "(y - 1) div k = q - 1"
      by (rule div_eqI [where r = "k - 1"]) (use y True k in \<open>simp_all add: algebra_simps\<close>)
    then show ?thesis using True by (simp add: q_def r_def)
  next
    case False
    have "(y - 1) div k = q"
      by (rule div_eqI [where r = "r - 1"]) (use y False r in \<open>simp_all add: algebra_simps\<close>)
    then show ?thesis using False by (simp add: q_def r_def)
  qed
qed

lemma days_before_year_step:
  "days_before_year (y + 1) = days_before_year y + year_length y"
proof -
  define u where "u = y - 1"
  define p4 where "p4 \<longleftrightarrow> y mod 4 = 0"
  define p100 where "p100 \<longleftrightarrow> y mod 100 = 0"
  define p400 where "p400 \<longleftrightarrow> y mod 400 = 0"
  define y4 where "y4 = y div 4"
  define y100 where "y100 = y div 100"
  define y400 where "y400 = y div 400"
  define u4 where "u4 = u div 4"
  define u100 where "u100 = u div 100"
  define u400 where "u400 = u div 400"
  have "y div 4 = (y - 1) div 4 + (if y mod 4 = 0 then 1 else 0)"
    by (rule div_step) simp
  then have s4: "y4 = u4 + (if p4 then 1 else 0)"
    by (simp only: y4_def u4_def u_def p4_def)
  have "y div 100 = (y - 1) div 100 + (if y mod 100 = 0 then 1 else 0)"
    by (rule div_step) simp
  then have s100: "y100 = u100 + (if p100 then 1 else 0)"
    by (simp only: y100_def u100_def u_def p100_def)
  have "y div 400 = (y - 1) div 400 + (if y mod 400 = 0 then 1 else 0)"
    by (rule div_step) simp
  then have s400: "y400 = u400 + (if p400 then 1 else 0)"
    by (simp only: y400_def u400_def u_def p400_def)
  have "y mod 400 mod 100 = y mod 100" by (rule mod_mod_cancel) simp
  then have i1: "p400 \<Longrightarrow> p100" by (simp add: p400_def p100_def)
  have "y mod 100 mod 4 = y mod 4" by (rule mod_mod_cancel) simp
  then have i2: "p100 \<Longrightarrow> p4" by (simp add: p100_def p4_def)
  have L: "days_before_year (y + 1) = y * 365 + y4 - y100 + y400"
    by (simp add: days_before_year_def y4_def y100_def y400_def)
  have R: "days_before_year y = u * 365 + u4 - u100 + u400"
    by (simp only: days_before_year_def Let_def u_def u4_def u100_def u400_def)
  have yl: "year_length y = (if p4 \<and> (\<not> p100 \<or> p400) then 366 else 365)"
    by (simp only: year_length_def leap_year_is_leap is_leap_def p4_def p100_def p400_def)
  have yu: "y = u + 1" by (simp add: u_def)
  show ?thesis
    unfolding L R yl s4 s100 s400 using i1 i2 yu by auto
qed

lemma year_length_pos: "365 \<le> year_length y"
  by (simp add: year_length_def)

lemma days_before_year_mono:
  assumes "y1 \<le> y2"
  shows "days_before_year y1 \<le> days_before_year y2"
  using assms
proof (induction y2 rule: int_ge_induct)
  case base
  show ?case by simp
next
  case (step i)
  then show ?case
    using days_before_year_step [of i] year_length_pos [of i] by linarith
qed

lemma sum_year_lengths:
  assumes "1 \<le> y"
  shows "sum_list (map year_length [1..y - 1]) = days_before_year y"
  using assms
proof (induction y rule: int_ge_induct)
  case base
  show ?case by (simp add: days_before_year_def)
next
  case (step i)
  have "[1..i + 1 - 1] = [1..i - 1] @ [i]"
    using step.hyps upto_rec2 [of 1 i] by simp
  then show ?case
    using step.IH days_before_year_step [of i] by simp
qed

lemma month_cases:
  fixes m :: int
  assumes "1 \<le> m" "m \<le> 12"
  obtains "m = 1" | "m = 2" | "m = 3" | "m = 4" | "m = 5" | "m = 6"
    | "m = 7" | "m = 8" | "m = 9" | "m = 10" | "m = 11" | "m = 12"
proof -
  from assms have "m = 1 \<or> m = 2 \<or> m = 3 \<or> m = 4 \<or> m = 5 \<or> m = 6 \<or>
    m = 7 \<or> m = 8 \<or> m = 9 \<or> m = 10 \<or> m = 11 \<or> m = 12"
    by arith
  then show ?thesis using that by blast
qed

lemmas month_tables = days_in_month_def days_before_month_def month_length_def
  DAYS_IN_MONTH_def DAYS_BEFORE_MONTH_def leap_year_is_leap

lemma month_length_days_in_month:
  assumes "1 \<le> m" "m \<le> 12"
  shows "month_length y m = days_in_month y m"
  using assms by (cases m rule: month_cases) (simp_all add: month_tables)

lemma sum_month_lengths:
  assumes "1 \<le> m" "m \<le> 12"
  shows "sum_list (map (month_length y) [1..m - 1]) = days_before_month y m"
  using assms by (cases m rule: month_cases) (simp_all add: month_tables upto_rec1)

lemma day_number_ymd2ord:
  assumes "1 \<le> y" "1 \<le> m" "m \<le> 12"
  shows "day_number y m d = ymd2ord y m d"
  using assms by (simp add: day_number_def ymd2ord_def sum_year_lengths sum_month_lengths)

lemma day_of_year_bounds:
  assumes "1 \<le> m" "m \<le> 12" "1 \<le> d" "d \<le> days_in_month y m"
  shows "1 \<le> days_before_month y m + d" and "days_before_month y m + d \<le> year_length y"
  using assms
  by (cases m rule: month_cases; simp add: month_tables year_length_def split: if_splits)+

lemma days_before_month_next:
  assumes "1 \<le> m" "m \<le> 11"
  shows "days_before_month y (m + 1) = days_before_month y m + days_in_month y m"
proof -
  from assms have "1 \<le> m" "m \<le> 12" by simp_all
  then show ?thesis
    using assms by (cases m rule: month_cases) (simp_all add: month_tables)
qed

lemma days_before_month_mono:
  assumes "1 \<le> m1" "m1 \<le> m2" "m2 \<le> 12"
  shows "days_before_month y m1 \<le> days_before_month y m2"
  using assms(2,1,3)
proof (induction m2 rule: int_ge_induct)
  case base
  show ?case by simp
next
  case (step i)
  from step have i: "1 \<le> i" "i \<le> 12" by simp_all
  have "0 \<le> days_in_month y i"
    by (rule month_cases [OF i]) (simp_all add: month_tables)
  then show ?case
    using step days_before_month_next [of i y] by simp
qed

lemma ymd2ord_mono:
  assumes v1: "1 \<le> m1" "m1 \<le> 12" "1 \<le> d1" "d1 \<le> days_in_month y1 m1"
    and v2: "1 \<le> m2" "m2 \<le> 12" "1 \<le> d2" "d2 \<le> days_in_month y2 m2"
    and lt: "y1 < y2 \<or> (y1 = y2 \<and> (m1 < m2 \<or> (m1 = m2 \<and> d1 < d2)))"
  shows "ymd2ord y1 m1 d1 < ymd2ord y2 m2 d2"
proof -
  consider "y1 < y2" | "y1 = y2" "m1 < m2" | "y1 = y2" "m1 = m2" "d1 < d2"
    using lt by blast
  then show ?thesis
  proof cases
    case 1
    have "ymd2ord y1 m1 d1 \<le> days_before_year y1 + year_length y1"
      using day_of_year_bounds(2) [OF v1] by (simp add: ymd2ord_def)
    also have "\<dots> = days_before_year (y1 + 1)"
      by (simp add: days_before_year_step)
    also have "\<dots> \<le> days_before_year y2"
      using 1 by (intro days_before_year_mono) simp
    also have "\<dots> < ymd2ord y2 m2 d2"
      using day_of_year_bounds(1) [OF v2] by (simp add: ymd2ord_def)
    finally show ?thesis .
  next
    case 2
    have "days_before_month y1 m1 + d1 \<le> days_before_month y1 (m1 + 1)"
      using v1 v2 2 by (simp add: days_before_month_next)
    also have "\<dots> \<le> days_before_month y1 m2"
      using v1 v2 2 by (intro days_before_month_mono) simp_all
    finally show ?thesis
      using 2 v2 by (simp add: ymd2ord_def)
  next
    case 3
    then show ?thesis by (simp add: ymd2ord_def)
  qed
qed

subsection \<open>The converter, field by field\<close>

lemma timedelta_new_normal:
  assumes "0 \<le> s" "s < 86400" "0 \<le> us" "us < 1000000"
  shows "timedelta_new d s us 0 0 =
           (if \<bar>d\<bar> > 999999999 then Inl OverflowError
            else Inr \<lparr>days = d, seconds = s, microseconds = us\<rparr>)"
proof -
  have s: "s div 86400 = 0" "s mod 86400 = s"
    using assms by (simp_all add: div_pos_pos_trivial mod_pos_pos_trivial)
  have us: "us div 1000000 = 0" "us mod 1000000 = us"
    using assms by (simp_all add: div_pos_pos_trivial mod_pos_pos_trivial)
  show ?thesis
    by (simp add: timedelta_new_def Let_def s us)
qed

lemma timedelta_new_microseconds:
  assumes "off = 86400000000 * q + 1000000 * s + us"
    and "0 \<le> s" "s < 86400" "0 \<le> us" "us < 1000000"
  shows "timedelta_new 0 0 off 0 0 =
           (if \<bar>q\<bar> > 999999999 then Inl OverflowError
            else Inr \<lparr>days = q, seconds = s, microseconds = us\<rparr>)"
proof -
  have d1: "off div 1000000 = 86400 * q + s"
    by (rule div_eqI [where r = us]) (use assms in simp_all)
  have m1: "off mod 1000000 = us"
    by (rule mod_eqI [where q = "86400 * q + s"]) (use assms in simp_all)
  have d2: "(86400 * q + s) div 86400 = q"
    by (rule div_eqI [where r = s]) (use assms in simp_all)
  have m2: "(86400 * q + s) mod 86400 = s"
    by (rule mod_eqI [where q = q]) (use assms in simp_all)
  have s: "s div 86400 = 0" "s mod 86400 = s"
    using assms by (simp_all add: div_pos_pos_trivial mod_pos_pos_trivial)
  have us: "us div 1000000 = 0" "us mod 1000000 = us"
    using assms by (simp_all add: div_pos_pos_trivial mod_pos_pos_trivial)
  show ?thesis
    unfolding timedelta_new_def Let_def
    by (simp add: d1 m1 d2 m2 s us)
qed

lemma offset_fields:
  fixes off :: int
  obtains q h mi se us where
    "off = 86400000000 * q + 3600000000 * h + 60000000 * mi + 1000000 * se + us"
    "0 \<le> h" "h < 24" "0 \<le> mi" "mi < 60" "0 \<le> se" "se < 60" "0 \<le> us" "us < 1000000"
proof -
  define us where "us = off mod 1000000"
  define t where "t = off div 1000000"
  define se where "se = t mod 60"
  define u where "u = t div 60"
  define mi where "mi = u mod 60"
  define v where "v = u div 60"
  define h where "h = v mod 24"
  define q where "q = v div 24"
  have 1: "off = 1000000 * t + us" "0 \<le> us" "us < 1000000"
    by (simp_all add: us_def t_def)
  have 2: "t = 60 * u + se" "0 \<le> se" "se < 60"
    by (simp_all add: se_def u_def)
  have 3: "u = 60 * v + mi" "0 \<le> mi" "mi < 60"
    by (simp_all add: mi_def v_def)
  have 4: "v = 24 * q + h" "0 \<le> h" "h < 24"
    by (simp_all add: h_def q_def)
  have "off = 86400000000 * q + 3600000000 * h + 60000000 * mi + 1000000 * se + us"
    using 1(1) 2(1) 3(1) 4(1) by linarith
  then show ?thesis
    using that 1 2 3 4 by blast
qed

lemma year_le_9999:
  assumes "1 \<le> m" "m \<le> 12" "1 \<le> d" "d \<le> days_in_month y m"
    and "ymd2ord y m d \<le> 3652059"
  shows "y \<le> 9999"
proof (rule ccontr)
  assume "\<not> y \<le> 9999"
  then have "days_before_year 10000 \<le> days_before_year y"
    by (intro days_before_year_mono) simp
  moreover have "days_before_year 10000 = 3652059"
    by (simp add: days_before_year_def)
  moreover have "days_before_year y < ymd2ord y m d"
    using day_of_year_bounds(1) [OF assms(1-4)] by (simp add: ymd2ord_def)
  ultimately show False using assms(5) by linarith
qed

lemma converter_fields:
  assumes off: "off = 86400000000 * q + 3600000000 * h + 60000000 * mi + 1000000 * se + us"
    and f: "0 \<le> h" "h < 24" "0 \<le> mi" "mi < 60" "0 \<le> se" "se < 60" "0 \<le> us" "us < 1000000"
  shows "postgres_timestamptz_to_datetime off =
           (if 1 \<le> 730120 + q \<and> 730120 + q \<le> 3652059
            then (case ord2ymd (730120 + q) of
                    (y, m, d) \<Rightarrow> Inr \<lparr>year = y, month = m, day = d, hour = h, minute = mi,
                                       second = se, microsecond = us, tzinfo = Some utc\<rparr>)
            else Inl OverflowError)"
proof -
  define s where "s = 3600 * h + 60 * mi + se"
  have s: "0 \<le> s" "s < 86400" using f by (simp_all add: s_def)
  have off': "off = 86400000000 * q + 1000000 * s + us"
    using off by (simp add: s_def)
  have epoch: "datetime_new 2000 1 1 0 0 0 0 (Some utc) = Inr epoch_2000"
    by (simp add: datetime_new_def epoch_2000_def days_in_month_def DAYS_IN_MONTH_def
        MINYEAR_def MAXYEAR_def)
  have ord: "toordinal epoch_2000 = 730120"
    by (simp add: toordinal_def epoch_2000_def ymd2ord_def days_before_year_def
        days_before_month_def DAYS_BEFORE_MONTH_def)
  have td: "timedelta_new 0 0 off 0 0 =
              (if \<bar>q\<bar> > 999999999 then Inl OverflowError
               else Inr \<lparr>days = q, seconds = s, microseconds = us\<rparr>)"
    using off' s f(7,8) by (rule timedelta_new_microseconds)
  have d0: "timedelta_new 730120 0 0 0 0 = Inr \<lparr>days = 730120, seconds = 0, microseconds = 0\<rparr>"
    by (simp add: timedelta_new_normal)
  have sum: "timedelta_new (730120 + q) s us 0 0 =
               (if \<bar>730120 + q\<bar> > 999999999 then Inl OverflowError
                else Inr \<lparr>days = 730120 + q, seconds = s, microseconds = us\<rparr>)"
    using s f(7,8) by (rule timedelta_new_normal)
  have hh: "s div 3600 = h"
    by (rule div_eqI [where r = "60 * mi + se"]) (use f in \<open>simp_all add: s_def\<close>)
  have rem: "s mod 3600 = 60 * mi + se"
    by (rule mod_eqI [where q = h]) (use f in \<open>simp_all add: s_def\<close>)
  have mm: "(60 * mi + se) div 60 = mi"
    by (rule div_eqI [where r = se]) (use f in simp_all)
  have ss: "(60 * mi + se) mod 60 = se"
    by (rule mod_eqI [where q = mi]) (use f in simp_all)
  have se: "se div 60 = 0" "se mod 60 = se"
    using f by (simp_all add: div_pos_pos_trivial mod_pos_pos_trivial)
  have add: "datetime_add epoch_2000 \<lparr>days = q, seconds = s, microseconds = us\<rparr> =
     (if \<bar>730120 + q\<bar> > 999999999 then Inl OverflowError
      else if 0 < 730120 + q \<and> 730120 + q \<le> MAXORDINAL
           then (case ord2ymd (730120 + q) of
                   (y, m, d) \<Rightarrow> datetime_new y m d h mi se us (Some utc))
           else Inl OverflowError)"
    unfolding datetime_add_def ord
    by (simp add: epoch_2000_def d0 timedelta_add_def sum hh rem mm ss se Let_def)
  show ?thesis
  proof (cases "1 \<le> 730120 + q \<and> 730120 + q \<le> 3652059")
    case False
    then show ?thesis
      unfolding postgres_timestamptz_to_datetime_def epoch td
      by (auto simp: add MAXORDINAL_def)
  next
    case True
    obtain y m d where o: "ord2ymd (730120 + q) = (y, m, d)"
      by (cases "ord2ymd (730120 + q)") 
    from True have "1 \<le> 730120 + q" by simp
    from ord2ymd_correct [OF this o]
    have c: "1 \<le> y" "1 \<le> m" "m \<le> 12" "1 \<le> d" "d \<le> days_in_month y m"
      "ymd2ord y m d = 730120 + q"
      by simp_all
    have "y \<le> 9999"
      using c True by (intro year_le_9999 [of m d y]) simp_all
    then have new: "datetime_new y m d h mi se us (Some utc) =
        Inr \<lparr>year = y, month = m, day = d, hour = h, minute = mi,
             second = se, microsecond = us, tzinfo = Some utc\<rparr>"
      using c f by (simp add: datetime_new_def MINYEAR_def MAXYEAR_def)
    from True have q: "\<not> \<bar>q\<bar> > 999999999" "\<not> \<bar>730120 + q\<bar> > 999999999" by linarith+
    show ?thesis
      unfolding postgres_timestamptz_to_datetime_def epoch td
      using True q by (simp add: add o new MAXORDINAL_def)
  qed
qed

subsection \<open>Instants\<close>

lemma micros_of_constants:
  "micros_of epoch_2000 = 63082281600000000"
  "micros_of datetime_min = 0"
  "micros_of datetime_max = 315537897599999999"
proof -
  have "day_number 2000 1 1 = ymd2ord 2000 1 1" "day_number 1 1 1 = ymd2ord 1 1 1"
    "day_number 9999 12 31 = ymd2ord 9999 12 31"
    by (rule day_number_ymd2ord; simp)+
  then show "micros_of epoch_2000 = 63082281600000000"
    "micros_of datetime_min = 0"
    "micros_of datetime_max = 315537897599999999"
    by (simp_all add: micros_of_def epoch_2000_def datetime_min_def datetime_max_def
        ymd2ord_def days_before_year_def days_before_month_def DAYS_BEFORE_MONTH_def is_leap_def)
qed

lemma representable_fields:
  assumes off: "off = 86400000000 * q + 3600000000 * h + 60000000 * mi + 1000000 * se + us"
    and f: "0 \<le> h" "h < 24" "0 \<le> mi" "mi < 60" "0 \<le> se" "se < 60" "0 \<le> us" "us < 1000000"
  shows "representable off \<longleftrightarrow> 1 \<le> 730120 + q \<and> 730120 + q \<le> 3652059"
  unfolding representable_def micros_of_constants using off f by linarith

lemma micros_of_fields:
  assumes "1 \<le> y" "1 \<le> m" "m \<le> 12"
  shows "micros_of \<lparr>year = y, month = m, day = d, hour = h, minute = mi, second = se,
                     microsecond = us, tzinfo = tz\<rparr>
         = 86400000000 * (ymd2ord y m d - 1) + 3600000000 * h + 60000000 * mi + 1000000 * se + us"
  using assms by (simp add: micros_of_def day_number_ymd2ord)

lemma valid_datetime_code:
  "valid_datetime dt \<Longrightarrow>
     1 \<le> year dt \<and> 1 \<le> month dt \<and> month dt \<le> 12 \<and> 1 \<le> day dt \<and>
     day dt \<le> days_in_month (year dt) (month dt)"
proof -
  assume v: "valid_datetime dt"
  then have m: "1 \<le> month dt" "month dt \<le> 12" by (simp_all add: valid_datetime_def)
  from v month_length_days_in_month [OF m, of "year dt"] show ?thesis
    by (simp add: valid_datetime_def)
qed

lemma micros_of_mono:
  assumes a: "valid_datetime a" and b: "valid_datetime b"
    and lt: "datetime_tuple a < datetime_tuple b"
  shows "micros_of a < micros_of b"
proof -
  define A where "A = ymd2ord (year a) (month a) (day a)"
  define B where "B = ymd2ord (year b) (month b) (day b)"
  have ma: "micros_of a = 86400000000 * (A - 1) + 3600000000 * hour a + 60000000 * minute a
      + 1000000 * second a + microsecond a"
    using a by (simp add: micros_of_def day_number_ymd2ord valid_datetime_def A_def)
  have mb: "micros_of b = 86400000000 * (B - 1) + 3600000000 * hour b + 60000000 * minute b
      + 1000000 * second b + microsecond b"
    using b by (simp add: micros_of_def day_number_ymd2ord valid_datetime_def B_def)
  define Ta where "Ta = 3600000000 * hour a + 60000000 * minute a
      + 1000000 * second a + microsecond a"
  define Tb where "Tb = 3600000000 * hour b + 60000000 * minute b
      + 1000000 * second b + microsecond b"
  have ta: "0 \<le> hour a" "hour a \<le> 23" "0 \<le> minute a" "minute a \<le> 59"
      "0 \<le> second a" "second a \<le> 59" "0 \<le> microsecond a" "microsecond a \<le> 999999"
    using a by (simp_all add: valid_datetime_def)
  have tb: "0 \<le> hour b" "hour b \<le> 23" "0 \<le> minute b" "minute b \<le> 59"
      "0 \<le> second b" "second b \<le> 59" "0 \<le> microsecond b" "microsecond b \<le> 999999"
    using b by (simp_all add: valid_datetime_def)
  have Ta: "0 \<le> Ta" "Ta < 86400000000" unfolding Ta_def using ta by linarith+
  have Tb: "0 \<le> Tb" "Tb < 86400000000" unfolding Tb_def using tb by linarith+
  have ma': "micros_of a = 86400000000 * A - 86400000000 + Ta" by (simp add: ma Ta_def)
  have mb': "micros_of b = 86400000000 * B - 86400000000 + Tb" by (simp add: mb Tb_def)
  let ?date_lt = "year a < year b \<or> (year a = year b \<and>
      (month a < month b \<or> (month a = month b \<and> day a < day b)))"
  let ?date_eq = "year a = year b \<and> month a = month b \<and> day a = day b"
  let ?time_lt = "hour a < hour b \<or> (hour a = hour b \<and> (minute a < minute b \<or>
      (minute a = minute b \<and> (second a < second b \<or>
        (second a = second b \<and> microsecond a < microsecond b)))))"
  from lt have "?date_lt \<or> (?date_eq \<and> ?time_lt)"
    by (auto simp: datetime_tuple_def less_prod_def)
  then show ?thesis
  proof
    assume ?date_lt
    with valid_datetime_code [OF a] valid_datetime_code [OF b] have "A < B"
      unfolding A_def B_def by (intro ymd2ord_mono) simp_all
    then have "A + 1 \<le> B" by simp
    then show ?thesis
      unfolding ma' mb' using Ta Tb by linarith
  next
    assume "?date_eq \<and> ?time_lt"
    then have "A = B" and t: ?time_lt by (simp_all add: A_def B_def)
    from t have "Ta < Tb"
    proof (elim disjE conjE)
      assume "hour a < hour b"
      then have "hour a + 1 \<le> hour b" by simp
      then show ?thesis unfolding Ta_def Tb_def using ta tb by linarith
    next
      assume "hour a = hour b" "minute a < minute b"
      then have "hour a = hour b" "minute a + 1 \<le> minute b" by simp_all
      then show ?thesis unfolding Ta_def Tb_def using ta tb by linarith
    next
      assume "hour a = hour b" "minute a = minute b" "second a < second b"
      then have "hour a = hour b" "minute a = minute b" "second a + 1 \<le> second b"
        by simp_all
      then show ?thesis unfolding Ta_def Tb_def using ta tb by linarith
    next
      assume "hour a = hour b" "minute a = minute b" "second a = second b"
        "microsecond a < microsecond b"
      then show ?thesis unfolding Ta_def Tb_def by linarith
    qed
    then show ?thesis
      unfolding ma' mb' \<open>A = B\<close> by linarith
  qed
qed

lemma micros_of_tuple:
  assumes "datetime_tuple a = datetime_tuple b"
  shows "micros_of a = micros_of b"
  using assms by (simp add: datetime_tuple_def micros_of_def)

lemma micros_of_inj:
  assumes a: "valid_datetime a" and b: "valid_datetime b"
    and eq: "micros_of a = micros_of b"
  shows "datetime_tuple a = datetime_tuple b"
proof (rule ccontr)
  assume "datetime_tuple a \<noteq> datetime_tuple b"
  then have "datetime_tuple a < datetime_tuple b \<or> datetime_tuple b < datetime_tuple a"
    by (rule neqE) simp_all
  then show False
    using micros_of_mono [OF a b] micros_of_mono [OF b a] eq by auto
qed

subsection \<open>Success and failure\<close>

lemma converter_total:
  "representable off \<Longrightarrow> \<exists>dt. postgres_timestamptz_to_datetime off = Inr dt"
  "\<not> representable off \<Longrightarrow> postgres_timestamptz_to_datetime off = Inl OverflowError"
proof -
  obtain q h mi se us where
    off: "off = 86400000000 * q + 3600000000 * h + 60000000 * mi + 1000000 * se + us"
    and f: "0 \<le> h" "h < 24" "0 \<le> mi" "mi < 60" "0 \<le> se" "se < 60" "0 \<le> us" "us < 1000000"
    by (rule offset_fields)
  note r = representable_fields [OF off f] and c = converter_fields [OF off f]
  show "representable off \<Longrightarrow> \<exists>dt. postgres_timestamptz_to_datetime off = Inr dt"
    unfolding r c by (cases "ord2ymd (730120 + q)") simp
  show "postgres_timestamptz_to_datetime off = Inl OverflowError" if "\<not> representable off"
  proof -
    from that r have "\<not> (1 \<le> 730120 + q \<and> 730120 + q \<le> 3652059)"
      by blast
    then show ?thesis
      unfolding c by (rule if_not_P)
  qed
qed

lemma converter_result:
  assumes res: "postgres_timestamptz_to_datetime off = Inr dt"
  shows "representable off" and "valid_datetime dt" and "tzinfo dt = Some utc"
    and "micros_of dt = micros_of epoch_2000 + off"
    and "microsecond dt = off mod 1000000"
proof -
  obtain q h mi se us where
    off: "off = 86400000000 * q + 3600000000 * h + 60000000 * mi + 1000000 * se + us"
    and f: "0 \<le> h" "h < 24" "0 \<le> mi" "mi < 60" "0 \<le> se" "se < 60" "0 \<le> us" "us < 1000000"
    by (rule offset_fields)
  note r = representable_fields [OF off f] and c = converter_fields [OF off f]
  from res c have range: "1 \<le> 730120 + q \<and> 730120 + q \<le> 3652059"
    by (simp split: if_splits)
  then show "representable off" by (simp add: r)
  obtain y m d where o: "ord2ymd (730120 + q) = (y, m, d)"
    by (cases "ord2ymd (730120 + q)")
  from range have "1 \<le> 730120 + q" by simp
  from ord2ymd_correct [OF this o]
  have k: "1 \<le> y" "1 \<le> m" "m \<le> 12" "1 \<le> d" "d \<le> days_in_month y m"
    "ymd2ord y m d = 730120 + q"
    by simp_all
  have y: "y \<le> 9999"
    using k range by (intro year_le_9999 [of m d y]) simp_all
  from res c range o have dt: "dt = \<lparr>year = y, month = m, day = d, hour = h, minute = mi,
      second = se, microsecond = us, tzinfo = Some utc\<rparr>"
    by simp
  show "valid_datetime dt"
    using k y f by (simp add: dt valid_datetime_def month_length_days_in_month)
  show "tzinfo dt = Some utc" by (simp add: dt)
  have "micros_of dt = 86400000000 * (ymd2ord y m d - 1) + 3600000000 * h + 60000000 * mi
      + 1000000 * se + us"
    unfolding dt using k(1-3) by (rule micros_of_fields)
  then show "micros_of dt = micros_of epoch_2000 + off"
    unfolding k(6) micros_of_constants off by simp
  have "off mod 1000000 = us"
    by (rule mod_eqI [where q = "86400 * q + 3600 * h + 60 * mi + se"]) (use off f in simp_all)
  then show "microsecond dt = off mod 1000000" by (simp add: dt)
qed

lemma representable_int64: "representable off \<Longrightarrow> int64 off"
  by (simp add: representable_def micros_of_constants int64_def)

section \<open>Claims about the converter\<close>

text \<open>
  C1. For every offset whose result is representable (every such offset is a signed
  64-bit integer, \<open>representable_int64\<close>; positive, zero or negative alike),
  \<open>postgres_timestamptz_to_datetime\<close> returns a well-formed timestamp that carries the
  UTC zone and denotes the instant \<open>off\<close> microseconds after 2000-01-01T00:00:00 UTC;
  its microsecond field is \<open>off mod 1000000\<close>, nothing is rounded away; and it is the
  only well-formed UTC timestamp that denotes that instant.
\<close>

theorem converter_adds_offset:
  assumes "representable off"
  shows "\<exists>dt. postgres_timestamptz_to_datetime off = Inr dt \<and>
              valid_datetime dt \<and> tzinfo dt = Some utc \<and>
              micros_of dt = micros_of epoch_2000 + off \<and>
              microsecond dt = off mod 1000000 \<and>
              (\<forall>dt'. valid_datetime dt' \<and> tzinfo dt' = Some utc \<and>
                     micros_of dt' = micros_of epoch_2000 + off \<longrightarrow> dt' = dt)"
proof -
  from converter_total(1) [OF assms] obtain dt where
    res: "postgres_timestamptz_to_datetime off = Inr dt" ..
  note p = converter_result [OF res]
  have "dt' = dt"
    if v: "valid_datetime dt'" and z: "tzinfo dt' = Some utc"
      and m: "micros_of dt' = micros_of epoch_2000 + off" for dt'
  proof -
    have "datetime_tuple dt' = datetime_tuple dt"
      using v p(2) by (rule micros_of_inj) (simp add: m p(4))
    then show ?thesis
      using z p(3) by (intro datetime.equality) (simp_all add: datetime_tuple_def)
  qed
  with res p show ?thesis by blast
qed

theorem converter_adds_offset_witness:
  "representable 1 \<and>
   postgres_timestamptz_to_datetime 1 =
     Inr \<lparr>year = 2000, month = 1, day = 1, hour = 0, minute = 0, second = 0,
           microsecond = 1, tzinfo = Some utc\<rparr> \<and>
   micros_of \<lparr>year = 2000, month = 1, day = 1, hour = 0, minute = 0, second = 0,
           microsecond = 1, tzinfo = Some utc\<rparr> = micros_of epoch_2000 + 1"
proof -
  have r: "representable 1"
    by (simp add: representable_def micros_of_constants)
  have e: "postgres_timestamptz_to_datetime 1 =
     Inr \<lparr>year = 2000, month = 1, day = 1, hour = 0, minute = 0, second = 0,
           microsecond = 1, tzinfo = Some utc\<rparr>"
    by (simp add: datetime_eval)
  from converter_adds_offset [OF r] r e show ?thesis by auto
qed

text \<open>
  C6. The converter fails with \<open>OverflowError\<close> exactly when the instant \<open>off\<close>
  microseconds after 2000-01-01T00:00:00 UTC lies outside the range of the timestamp
  type; on every representable offset it returns a timestamp, and it never fails in any
  other way.
\<close>

theorem converter_fails_iff_out_of_range:
  "(postgres_timestamptz_to_datetime off = Inl OverflowError \<longleftrightarrow> \<not> representable off) \<and>
   (representable off \<longrightarrow> (\<exists>dt. postgres_timestamptz_to_datetime off = Inr dt)) \<and>
   postgres_timestamptz_to_datetime off \<noteq> Inl ValueError"
  using converter_total [of off] by (cases "representable off") auto

theorem converter_fails_iff_out_of_range_witness:
  "representable 0 \<and> (\<exists>dt. postgres_timestamptz_to_datetime 0 = Inr dt) \<and>
   \<not> representable (2 ^ 63 - 1) \<and>
   postgres_timestamptz_to_datetime (2 ^ 63 - 1) = Inl OverflowError"
  using converter_fails_iff_out_of_range [of 0]
    converter_fails_iff_out_of_range [of "2 ^ 63 - 1"]
  by (simp add: representable_def micros_of_constants)

text \<open>
  C8. The converter is strictly monotonic: of two offsets \<open>a < b\<close> that both convert,
  the timestamp of \<open>a\<close> is strictly earlier than the timestamp of \<open>b\<close>.
\<close>

theorem converter_strictly_monotonic:
  assumes "a < b"
    and "postgres_timestamptz_to_datetime a = Inr x"
    and "postgres_timestamptz_to_datetime b = Inr y"
  shows "datetime_lt x y"
proof -
  note px = converter_result [OF assms(2)] and py = converter_result [OF assms(3)]
  have lt: "micros_of x < micros_of y"
    using assms(1) by (simp add: px(4) py(4))
  show ?thesis
  proof (rule ccontr)
    assume "\<not> datetime_lt x y"
    then have "datetime_tuple y < datetime_tuple x \<or> datetime_tuple y = datetime_tuple x"
      unfolding datetime_lt_def by (simp add: not_less le_less)
    then show False
    proof
      assume "datetime_tuple y < datetime_tuple x"
      from micros_of_mono [OF py(2) px(2) this] lt show False by simp
    next
      assume "datetime_tuple y = datetime_tuple x"
      from micros_of_tuple [OF this] lt show False by simp
    qed
  qed
qed

theorem converter_strictly_monotonic_witness:
  "(0::int) < 1 \<and>
   postgres_timestamptz_to_datetime 0 =
     Inr \<lparr>year = 2000, month = 1, day = 1, hour = 0, minute = 0, second = 0,
           microsecond = 0, tzinfo = Some utc\<rparr> \<and>
   postgres_timestamptz_to_datetime 1 =
     Inr \<lparr>year = 2000, month = 1, day = 1, hour = 0, minute = 0, second = 0,
           microsecond = 1, tzinfo = Some utc\<rparr> \<and>
   datetime_lt
     \<lparr>year = 2000, month = 1, day = 1, hour = 0, minute = 0, second = 0,
           microsecond = 0, tzinfo = Some utc\<rparr>
     \<lparr>year = 2000, month = 1, day = 1, hour = 0, minute = 0, second = 0,
           microsecond = 1, tzinfo = Some utc\<rparr>"
proof -
  have e0: "postgres_timestamptz_to_datetime 0 =
     Inr \<lparr>year = 2000, month = 1, day = 1, hour = 0, minute = 0, second = 0,
           microsecond = 0, tzinfo = Some utc\<rparr>"
    by (simp add: datetime_eval)
  have e1: "postgres_timestamptz_to_datetime 1 =
     Inr \<lparr>year = 2000, month = 1, day = 1, hour = 0, minute = 0, second = 0,
           microsecond = 1, tzinfo = Some utc\<rparr>"
    by (simp add: datetime_eval)
  have "(0::int) < 1" by simp
  from converter_strictly_monotonic [OF this e0 e1] e0 e1 show ?thesis by simp
qed

section \<open>Single inputs\<close>

text \<open>
  C7. The token \<open>0a00000000000000\<close> decodes to the integer 10.
\<close>

theorem decode_0a_is_10: "hex_le_to_int64 ''0a00000000000000'' = Inr 10"
  by (simp add: hex_eval)

text \<open>
  C5. A string whose length is not 16 is rejected with \<open>ValueError\<close>, whatever it
  holds: the length test comes before anything reads the characters.
\<close>

theorem wrong_length_rejected:
  "length hex_str \<noteq> 16 \<Longrightarrow> hex_le_to_int64 hex_str = Inl ValueError"
  by (simp add: hex_le_to_int64_def)

theorem wrong_length_rejected_witness:
  "length ''0a'' \<noteq> 16 \<and> hex_le_to_int64 ''0a'' = Inl ValueError \<and>
   length ''0a000000000000000'' \<noteq> 16 \<and> hex_le_to_int64 ''0a000000000000000'' = Inl ValueError"
  using wrong_length_rejected [of "''0a''"] wrong_length_rejected [of "''0a000000000000000''"]
  by simp

text \<open>
  C4, as the specification has it: the offset 662770800000000 gives 2021-01-01T03:40:00
  UTC. The converter does not return that timestamp.
\<close>

theorem sample_offset_not_0340:
  "postgres_timestamptz_to_datetime 662770800000000 \<noteq>
     Inr \<lparr>year = 2021, month = 1, day = 1, hour = 3, minute = 40, second = 0,
           microsecond = 0, tzinfo = Some utc\<rparr>"
  by (simp add: datetime_eval)

text \<open>
  C4, amended: the offset 662770800000000 is 7670 days and 23 hours, and the converter
  returns 2020-12-31T23:00:00 UTC.
\<close>

theorem sample_offset_is_2020_12_31_23h:
  "postgres_timestamptz_to_datetime 662770800000000 =
     Inr \<lparr>year = 2020, month = 12, day = 31, hour = 23, minute = 0, second = 0,
           microsecond = 0, tzinfo = Some utc\<rparr>"
  by (simp add: datetime_eval)

text \<open>
  C9. The two functions composed are not total on valid tokens: there is a valid token
  that the decoder accepts and whose value the converter rejects with \<open>OverflowError\<close>.
  The token \<open>ffffffffffffff7f\<close>, which decodes to \<open>2 ^ 63 - 1\<close>, is one.
\<close>

theorem composition_not_total:
  "\<exists>t v. valid_token t \<and> hex_le_to_int64 t = Inr v \<and>
         postgres_timestamptz_to_datetime v = Inl OverflowError"
proof -
  have "valid_token ''ffffffffffffff7f''"
    by (simp add: valid_token_def hexdigit_char_def)
  moreover have "hex_le_to_int64 ''ffffffffffffff7f'' = Inr (2 ^ 63 - 1)"
    by (simp add: hex_eval)
  moreover have "postgres_timestamptz_to_datetime (2 ^ 63 - 1) = Inl OverflowError"
    by (simp add: datetime_eval)
  ultimately show ?thesis by blast
qed

end
